theory Spec2Isabelle
  imports Complex_Main "HOL-Library.Multiset" "HOL-Library.Sublist"
begin

section \<open>Room identifiers (RoomSelector)\<close>

text \<open>
  JavaScript strings are modelled as \<open>string\<close> (a list of characters); \<open>padEnd\<close>
  and \<open>slice\<close> count characters of that list.

  \<^verbatim>\<open>shortId.padEnd(32, '0')\<close>: a string of 32 or more characters is returned as it is,
  a shorter one is filled with \<open>0\<close> on the right up to 32 characters.
\<close>

definition padEnd :: "string \<Rightarrow> nat \<Rightarrow> char \<Rightarrow> string" where
  "padEnd s n c = s @ replicate (n - length s) c"

text \<open>\<^verbatim>\<open>s.slice(a, b)\<close> for constant bounds \<open>0 \<le> a \<le> b\<close>.\<close>

definition slice :: "string \<Rightarrow> nat \<Rightarrow> nat \<Rightarrow> string" where
  "slice s a b = take (b - a) (drop a s)"

definition roomIdToUUID :: "string \<Rightarrow> string" where
  "roomIdToUUID shortId =
     (let padded = padEnd shortId 32 (CHR ''0'')
      in slice padded 0 8 @ ''-'' @ slice padded 8 12 @ ''-'' @ slice padded 12 16 @ ''-''
         @ slice padded 16 20 @ ''-'' @ slice padded 20 32)"

text \<open>\<^verbatim>\<open>uuid.replace(/-/g, '').slice(0, 8)\<close>: every dash is removed, then the first
  eight characters are kept.\<close>

definition uuidToRoomId :: "string \<Rightarrow> string" where
  "uuidToRoomId uuid = slice (filter (\<lambda>c. c \<noteq> CHR ''-'') uuid) 0 8"

section \<open>Client operations state (useCanvas)\<close>

datatype ToolType = brush | eraser

record Point =
  p_x :: real
  p_y :: real
  p_pressure :: "real option"
  p_timestamp :: nat

record StrokeOperation =
  s_id :: string
  s_userId :: string
  s_color :: string
  s_width :: real
  s_tool :: ToolType
  s_points :: "Point list"
  s_startTime :: nat
  s_endTime :: "nat option"
  s_sequence :: nat

record ClearOperation =
  c_id :: string
  c_userId :: string
  c_timestamp :: nat
  c_sequence :: nat

text \<open>\<^verbatim>\<open>type DrawingOperation = StrokeOperation | ClearOperation\<close>, with the fields
  \<open>id\<close>, \<open>userId\<close> and \<open>sequence\<close> that both variants carry.\<close>

datatype DrawingOperation = Stroke StrokeOperation | Clear ClearOperation

fun op_id :: "DrawingOperation \<Rightarrow> string" where
  "op_id (Stroke s) = s_id s"
| "op_id (Clear c) = c_id c"


fun op_sequence :: "DrawingOperation \<Rightarrow> nat" where
  "op_sequence (Stroke s) = s_sequence s"
| "op_sequence (Clear c) = c_sequence c"

text \<open>
  The state updaters of \<open>useCanvas\<close>, as functions from the previous operations list to the
  next one. \<^verbatim>\<open>newOps.sort((a, b) => a.sequence - b.sequence)\<close> is a stable sort by
  sequence; \<^const>\<open>sort_key\<close> is the stable insertion sort.
\<close>

definition addOperation :: "DrawingOperation \<Rightarrow> DrawingOperation list \<Rightarrow> DrawingOperation list" where
  "addOperation operation prev =
     (if list_ex (\<lambda>op. op_id op = op_id operation) prev then prev
      else sort_key op_sequence (prev @ [operation]))"

definition removeOperation :: "string \<Rightarrow> DrawingOperation list \<Rightarrow> DrawingOperation list" where
  "removeOperation i prev = filter (\<lambda>op. op_id op \<noteq> i) prev"

definition setOperations :: "DrawingOperation list \<Rightarrow> DrawingOperation list" where
  "setOperations ops = sort_key op_sequence ops"

text \<open>Delivering operations one at a time, in the order of the list, to a client whose
  operations list starts empty.\<close>

definition deliver :: "DrawingOperation list \<Rightarrow> DrawingOperation list" where
  "deliver arrivals = foldl (\<lambda>prev operation. addOperation operation prev) [] arrivals"

text \<open>Concrete operations used as test data.\<close>

definition clear_op :: "string \<Rightarrow> nat \<Rightarrow> DrawingOperation" where
  "clear_op i n = Clear \<lparr>c_id = i, c_userId = ''u'', c_timestamp = 0, c_sequence = n\<rparr>"

section \<open>Local draw session (canvas-engine, useCanvas)\<close>

text \<open>
  Points are JavaScript objects, and \<open>filterNearbyPoints\<close> compares two of them with
  \<^verbatim>\<open>!==\<close>, which is identity of objects, not equality of coordinates. The points array
  is therefore a list of references into a store of point objects.

  Coordinates are JavaScript numbers, that is IEEE 754 binary64 values. A finite double is
  a real number, and an arithmetic operation on doubles returns the exact result rounded to
  the nearest double, a tie going to the even significand. \<open>rne\<close> rounds a real to the
  nearest integer in that way, and \<open>binary64\<close> rounds a real to 53 significant bits. The
  exponent is not bounded: overflow to \<open>Infinity\<close>, gradual underflow and \<open>NaN\<close> are not
  modelled; they do not occur with coordinates and widths of the magnitude of a screen.
\<close>

type_synonym ref = nat

type_synonym heap = "ref \<Rightarrow> Point"

definition rne :: "real \<Rightarrow> int" where
  "rne q = (let f = \<lfloor>q\<rfloor> in
     if q - of_int f < 1 / 2 then f
     else if 1 / 2 < q - of_int f then f + 1
     else if even f then f else f + 1)"

definition binary64 :: "real \<Rightarrow> real" where
  "binary64 x =
     (if x = 0 then 0
      else (let u = 2 powr (of_int \<lfloor>log 2 \<bar>x\<bar>\<rfloor> - 52) in u * of_int (rne (x / u))))"

text \<open>\<^verbatim>\<open>Math.sqrt((p2.x - p1.x) ** 2 + (p2.y - p1.y) ** 2)\<close>: the two differences, the two
  squares, the sum and the square root are each rounded to a double (the engine's
  \<^verbatim>\<open>** 2\<close> and \<^verbatim>\<open>Math.sqrt\<close> taken as correctly rounded).\<close>

definition distance :: "Point \<Rightarrow> Point \<Rightarrow> real" where
  "distance p1 p2 =
     binary64 (sqrt (binary64 (binary64 ((binary64 (p_x p2 - p_x p1))\<^sup>2)
                               + binary64 ((binary64 (p_y p2 - p_y p1))\<^sup>2))))"

text \<open>The Euclidean distance of the specification, in exact arithmetic, to compare the
  computed distance with.\<close>

definition euclidean :: "Point \<Rightarrow> Point \<Rightarrow> real" where
  "euclidean p1 p2 = sqrt ((p_x p2 - p_x p1)\<^sup>2 + (p_y p2 - p_y p1)\<^sup>2)"

text \<open>The \<^verbatim>\<open>for\<close> loop of \<open>filterNearbyPoints\<close>: \<open>filtered\<close> is the array built so far
  (never empty), the last argument the points still to visit.\<close>

fun filter_loop :: "heap \<Rightarrow> real \<Rightarrow> ref list \<Rightarrow> ref list \<Rightarrow> ref list" where
  "filter_loop h minDistance filtered [] = filtered"
| "filter_loop h minDistance filtered (p # rest) =
     (if distance (h (last filtered)) (h p) \<ge> minDistance
      then filter_loop h minDistance (filtered @ [p]) rest
      else filter_loop h minDistance filtered rest)"

definition filterNearbyPoints :: "heap \<Rightarrow> ref list \<Rightarrow> real \<Rightarrow> ref list" where
  "filterNearbyPoints h points minDistance =
     (if length points < 2 then points
      else let filtered = filter_loop h minDistance [hd points] (tl points)
           in if last filtered \<noteq> last points then filtered @ [last points] else filtered)"

text \<open>The rule of the specification, read as a function: of the points that follow the
  point retained last, a point is retained when its distance from the point retained last
  is at least the threshold, and it is then the point retained last for those after it.\<close>

fun kept_after :: "heap \<Rightarrow> real \<Rightarrow> ref \<Rightarrow> ref list \<Rightarrow> ref list" where
  "kept_after h minDistance lastKept [] = []"
| "kept_after h minDistance lastKept (p # rest) =
     (if minDistance \<le> distance (h lastKept) (h p)
      then p # kept_after h minDistance p rest
      else kept_after h minDistance lastKept rest)"

text \<open>\<^verbatim>\<open>Math.max(1, toolSettings.width / 4)\<close> of \<open>continueDrawing\<close> and \<open>endDrawing\<close>.
  A division of a double by 4 is exact, so the threshold needs no rounding.\<close>

definition minDist :: "real \<Rightarrow> real" where
  "minDist width = max 1 (width / 4)"

text \<open>A store for test data: the object at reference \<open>r\<close> is the point \<open>(0, r)\<close>.\<close>

definition column_heap :: heap where
  "column_heap r = \<lparr>p_x = 0, p_y = real r, p_pressure = None, p_timestamp = r\<rparr>"

text \<open>A store in which rounding matters: \<open>(0, 0)\<close>, \<open>(1.4, 4.8)\<close> and \<open>(2, 6)\<close> at the
  references 0, 1, 2. The doubles that the literals \<open>1.4\<close> and \<open>4.8\<close> denote are
  \<open>3152519739159347 / 2^51\<close> and \<open>5404319552844595 / 2^50\<close>.\<close>

definition rounding_heap :: heap where
  "rounding_heap r =
     (if r = 0 then \<lparr>p_x = 0, p_y = 0, p_pressure = None, p_timestamp = 0\<rparr>
      else if r = 1 then \<lparr>p_x = 3152519739159347 / 2251799813685248,
                             p_y = 5404319552844595 / 1125899906842624,
                             p_pressure = None, p_timestamp = 1\<rparr>
      else \<lparr>p_x = 2, p_y = 6, p_pressure = None, p_timestamp = 2\<rparr>)"

section \<open>Operation log and redo stack (database tables, sync-service)\<close>

text \<open>
  The two tables of the migrations. \<open>type TEXT CHECK (type IN ('stroke', 'clear'))\<close> is a
  two-valued type; the \<open>data\<close> column holds the JSON object written by \<open>commitStroke\<close>, each
  key of which may be absent. The \<open>BIGSERIAL\<close> column draws from one counter shared by all
  rooms, modelled as an unbounded natural number. The \<open>rooms\<close> table and its timestamp
  trigger are not modelled.
\<close>

datatype row_type = type_stroke | type_clear

record op_data =
  d_id :: "string option"
  d_color :: "string option"
  d_width :: "real option"
  d_tool :: "ToolType option"
  d_points :: "Point list option"

record operations_row =
  o_id :: string
  o_room_id :: string
  o_user_id :: string
  o_user_name :: string
  o_user_color :: string
  o_sequence :: nat
  o_type :: row_type
  o_data :: op_data
  o_created_at :: nat

record redo_stack_row =
  r_id :: string
  r_room_id :: string
  r_operation_data :: operations_row
  r_deleted_at :: nat
  r_original_id :: string

record database =
  operations :: "operations_row list"
  redo_stack :: "redo_stack_row list"
  sequence_next :: nat

text \<open>
  What one call of a \<open>SyncService\<close> method reads from outside the tables: the clock
  (\<open>DEFAULT now()\<close>), the identifier \<open>gen_random_uuid()\<close> gives to the row the call inserts
  (each method inserts at most one row), and whether its select, insert and delete requests
  come back with an error. A request that fails leaves the tables as they were.
\<close>

record env =
  now :: nat
  gen_random_uuid :: string
  select_error :: bool
  insert_error :: bool
  delete_error :: bool

record SyncService =
  roomId :: string
  userId :: string
  userName :: string
  userColor :: string

text \<open>\<^verbatim>\<open>.order(col, { ascending: false })\<close>, and \<^verbatim>\<open>.limit(1).single()\<close>, which is an
  error unless exactly one row is left. SQL leaves the order of rows with equal keys open;
  here the row inserted later comes first. The theorems below do not depend on that
  choice: they either hold for every row of maximal key or assume the maximum is unique.\<close>

definition order_desc :: "('a \<Rightarrow> nat) \<Rightarrow> 'a list \<Rightarrow> 'a list" where
  "order_desc col rows = rev (sort_key col rows)"

definition limit_single :: "'a list \<Rightarrow> 'a option" where
  "limit_single rows = (case take 1 rows of [r] \<Rightarrow> Some r | _ \<Rightarrow> None)"

definition rowToOperation :: "operations_row \<Rightarrow> DrawingOperation" where
  "rowToOperation row =
     (if o_type row = type_stroke then
        Stroke \<lparr>s_id = o_id row, s_userId = o_user_id row,
          s_color = (case d_color (o_data row) of
                       Some c \<Rightarrow> if c = [] then ''#000000'' else c | None \<Rightarrow> ''#000000''),
          s_width = (case d_width (o_data row) of
                       Some w \<Rightarrow> if w = 0 then 4 else w | None \<Rightarrow> 4),
          s_tool = (case d_tool (o_data row) of Some t \<Rightarrow> t | None \<Rightarrow> brush),
          s_points = (case d_points (o_data row) of Some ps \<Rightarrow> ps | None \<Rightarrow> []),
          s_startTime = o_created_at row, s_endTime = None, s_sequence = o_sequence row\<rparr>
      else
        Clear \<lparr>c_id = o_id row, c_userId = o_user_id row, c_timestamp = o_created_at row,
          c_sequence = o_sequence row\<rparr>)"

text \<open>The trigger function \<open>cleanup_old_redo_items\<close>, run after each insert into
  \<open>redo_stack\<close> with the room of the new row: the rows of that room beyond the first 50 in
  descending \<open>deleted_at\<close> are selected, and every row with one of their ids is deleted.\<close>

definition cleanup_old_redo_items :: "string \<Rightarrow> redo_stack_row list \<Rightarrow> redo_stack_row list" where
  "cleanup_old_redo_items new_room_id rs =
     (let old = map r_id (drop 50 (order_desc r_deleted_at
                   (filter (\<lambda>r. r_room_id r = new_room_id) rs)))
      in filter (\<lambda>r. r_id r \<notin> set old) rs)"

definition redo_stack_insert ::
  "env \<Rightarrow> string \<Rightarrow> string \<Rightarrow> operations_row \<Rightarrow> redo_stack_row list \<Rightarrow> redo_stack_row list" where
  "redo_stack_insert e room original opdata rs =
     cleanup_old_redo_items room
       (rs @ [\<lparr>r_id = gen_random_uuid e, r_room_id = room, r_operation_data = opdata,
               r_deleted_at = now e, r_original_id = original\<rparr>])"

definition operations_insert ::
  "env \<Rightarrow> string \<Rightarrow> string \<Rightarrow> string \<Rightarrow> string \<Rightarrow> row_type \<Rightarrow> op_data \<Rightarrow> database
     \<Rightarrow> operations_row \<times> database" where
  "operations_insert e room uid uname ucolor ty dat d =
     (let row = \<lparr>o_id = gen_random_uuid e, o_room_id = room, o_user_id = uid,
                 o_user_name = uname, o_user_color = ucolor, o_sequence = sequence_next d,
                 o_type = ty, o_data = dat, o_created_at = now e\<rparr>
      in (row, d\<lparr>operations := operations d @ [row], sequence_next := Suc (sequence_next d)\<rparr>))"

subsection \<open>The methods of SyncService\<close>

definition clearRedoStack :: "SyncService \<Rightarrow> env \<Rightarrow> database \<Rightarrow> database" where
  "clearRedoStack svc e d =
     (if delete_error e then d
      else d\<lparr>redo_stack := filter (\<lambda>r. r_room_id r \<noteq> roomId svc) (redo_stack d)\<rparr>)"

text \<open>\<open>commitStroke\<close> returns \<^verbatim>\<open>number | null\<close>: \<open>null\<close> when the insert reports an
  error, and \<^verbatim>\<open>data?.sequence || null\<close> otherwise, which is \<open>null\<close> for sequence 0.\<close>

definition commitStroke :: "SyncService \<Rightarrow> env \<Rightarrow> StrokeOperation \<Rightarrow> database \<Rightarrow> nat option \<times> database" where
  "commitStroke svc e stroke d =
     (let d1 = clearRedoStack svc e d;
          strokeData = \<lparr>d_id = Some (s_id stroke), d_color = Some (s_color stroke),
                        d_width = Some (s_width stroke), d_tool = Some (s_tool stroke),
                        d_points = Some (s_points stroke)\<rparr>
      in if insert_error e then (None, d1)
         else (let (row, d2) = operations_insert e (roomId svc) (userId svc) (userName svc)
                                 (userColor svc) type_stroke strokeData d1
               in (if o_sequence row = 0 then None else Some (o_sequence row), d2)))"

definition commitClear :: "SyncService \<Rightarrow> env \<Rightarrow> database \<Rightarrow> database" where
  "commitClear svc e d =
     (if delete_error e then d
      else d\<lparr>operations := filter (\<lambda>r. o_room_id r \<noteq> roomId svc) (operations d)\<rparr>)"

definition undoLast :: "SyncService \<Rightarrow> env \<Rightarrow> database \<Rightarrow> string option \<times> database" where
  "undoLast svc e d =
     (case (if select_error e then None
            else limit_single (order_desc o_sequence
                   (filter (\<lambda>r. o_room_id r = roomId svc) (operations d)))) of
        None \<Rightarrow> (None, d)
      | Some lastOp \<Rightarrow>
          (let d1 = (if insert_error e then d
                     else d\<lparr>redo_stack :=
                            redo_stack_insert e (roomId svc) (o_id lastOp) lastOp (redo_stack d)\<rparr>)
           in if delete_error e then (None, d1)
              else (Some (o_id lastOp),
                    d1\<lparr>operations := filter (\<lambda>r. o_id r \<noteq> o_id lastOp) (operations d1)\<rparr>)))"

definition redoLast :: "SyncService \<Rightarrow> env \<Rightarrow> database \<Rightarrow> DrawingOperation option \<times> database" where
  "redoLast svc e d =
     (case (if select_error e then None
            else limit_single (order_desc r_deleted_at
                   (filter (\<lambda>r. r_room_id r = roomId svc) (redo_stack d)))) of
        None \<Rightarrow> (None, d)
      | Some redoItem \<Rightarrow>
          (let opData = r_operation_data redoItem
           in if insert_error e then (None, d)
              else (let (newOp, d1) = operations_insert e (roomId svc) (o_user_id opData)
                                        (o_user_name opData) (o_user_color opData)
                                        (o_type opData) (o_data opData) d;
                        d2 = (if delete_error e then d1
                              else d1\<lparr>redo_stack :=
                                     filter (\<lambda>r. r_id r \<noteq> r_id redoItem) (redo_stack d1)\<rparr>)
                    in (Some (rowToOperation newOp), d2))))"

definition hasRedoAvailable :: "SyncService \<Rightarrow> database \<Rightarrow> bool" where
  "hasRedoAvailable svc d = (length (filter (\<lambda>r. r_room_id r = roomId svc) (redo_stack d)) > 0)"

subsection \<open>Views of a room and runs of calls\<close>

definition room_log :: "string \<Rightarrow> database \<Rightarrow> operations_row list" where
  "room_log room d = filter (\<lambda>r. o_room_id r = room) (operations d)"

definition room_redo :: "string \<Rightarrow> database \<Rightarrow> redo_stack_row list" where
  "room_redo room d = filter (\<lambda>r. r_room_id r = room) (redo_stack d)"


text \<open>The invariant of the log that the sequence counter maintains: the sequences in
  the table are pairwise distinct and below the next value of the counter, which starts
  at 1.\<close>

definition log_wf :: "database \<Rightarrow> bool" where
  "log_wf d = (distinct (map o_sequence (operations d))
               \<and> list_all (\<lambda>r. o_sequence r < sequence_next d) (operations d)
               \<and> 0 < sequence_next d)"

text \<open>An environment in which every request succeeds.\<close>

definition no_error :: "env \<Rightarrow> bool" where
  "no_error e = (\<not> select_error e \<and> \<not> insert_error e \<and> \<not> delete_error e)"

text \<open>Test data: a client of room \<open>R\<close>, environments without errors, and a log row.\<close>

definition svc_R :: SyncService where
  "svc_R = \<lparr>roomId = ''R'', userId = ''alice'', userName = ''Alice'', userColor = ''red''\<rparr>"

definition ok_env :: "nat \<Rightarrow> string \<Rightarrow> env" where
  "ok_env t u = \<lparr>now = t, gen_random_uuid = u, select_error = False, insert_error = False,
                 delete_error = False\<rparr>"

definition empty_data :: op_data where
  "empty_data = \<lparr>d_id = None, d_color = None, d_width = None, d_tool = None, d_points = None\<rparr>"

definition log_row :: "string \<Rightarrow> nat \<Rightarrow> operations_row" where
  "log_row i n = \<lparr>o_id = i, o_room_id = ''R'', o_user_id = ''bob'', o_user_name = ''Bob'',
                  o_user_color = ''blue'', o_sequence = n, o_type = type_clear,
                  o_data = empty_data, o_created_at = n\<rparr>"

definition db_of :: "operations_row list \<Rightarrow> nat \<Rightarrow> database" where
  "db_of rows n = \<lparr>operations = rows, redo_stack = [], sequence_next = n\<rparr>"

text \<open>The scenario of the specification: a room whose log holds the sequences 1, 2, 3,
  and the same room after one undo at time 10.\<close>

definition db3 :: database where
  "db3 = db_of [log_row ''op1'' 1, log_row ''op2'' 2, log_row ''op3'' 3] 4"

definition db3_undone :: database where
  "db3_undone = \<lparr>operations = [log_row ''op1'' 1, log_row ''op2'' 2],
     redo_stack = [\<lparr>r_id = ''u1'', r_room_id = ''R'', r_operation_data = log_row ''op3'' 3,
                    r_deleted_at = 10, r_original_id = ''op3''\<rparr>], sequence_next = 4\<rparr>"

definition demo_stroke :: StrokeOperation where
  "demo_stroke = \<lparr>s_id = ''s1'', s_userId = ''alice'', s_color = ''#1a1a2e'', s_width = 4,
     s_tool = brush, s_points = [], s_startTime = 0, s_endTime = None, s_sequence = 0\<rparr>"

section \<open>Round trip of room identifiers\<close>

lemma length_padEnd: "length (padEnd s n c) = max (length s) n"
  by (simp add: padEnd_def)

lemma slices_rejoin:
  "slice p 0 8 @ slice p 8 12 @ slice p 12 16 @ slice p 16 20 @ slice p 20 32 = take 32 p"
proof -
  have "take 32 p = take (20 + 12) p" by simp
  also have "\<dots> = take 20 p @ take 12 (drop 20 p)" by (rule take_add)
  also have "take 20 p = take (16 + 4) p" by simp
  also have "\<dots> = take 16 p @ take 4 (drop 16 p)" by (rule take_add)
  also have "take 16 p = take (12 + 4) p" by simp
  also have "\<dots> = take 12 p @ take 4 (drop 12 p)" by (rule take_add)
  also have "take 12 p = take (8 + 4) p" by simp
  also have "\<dots> = take 8 p @ take 4 (drop 8 p)" by (rule take_add)
  finally show ?thesis by (simp add: slice_def)
qed

lemma filter_no_dash: "CHR ''-'' \<notin> set s \<Longrightarrow> filter (\<lambda>c. c \<noteq> CHR ''-'') s = s"
  by (induction s) auto

lemma padded_no_dash: "CHR ''-'' \<notin> set s \<Longrightarrow> CHR ''-'' \<notin> set (padEnd s n (CHR ''0''))"
  by (auto simp: padEnd_def)

lemma slice_no_dash: "CHR ''-'' \<notin> set p \<Longrightarrow> CHR ''-'' \<notin> set (slice p a b)"
  by (auto simp: slice_def dest: in_set_takeD in_set_dropD)

lemma strip_roomIdToUUID:
  assumes "CHR ''-'' \<notin> set s"
  shows "filter (\<lambda>c. c \<noteq> CHR ''-'') (roomIdToUUID s) = take 32 (padEnd s 32 (CHR ''0''))"
proof -
  let ?p = "padEnd s 32 (CHR ''0'')"
  have nd: "CHR ''-'' \<notin> set (slice ?p a b)" for a b
    using assms by (intro slice_no_dash padded_no_dash)
  have "filter (\<lambda>c. c \<noteq> CHR ''-'') (roomIdToUUID s)
        = slice ?p 0 8 @ slice ?p 8 12 @ slice ?p 12 16 @ slice ?p 16 20 @ slice ?p 20 32"
    by (simp add: roomIdToUUID_def Let_def filter_no_dash [OF nd])
  then show ?thesis by (simp only: slices_rejoin)
qed

text \<open>
  Claim C10, as the code has it. \<open>uuidToRoomId\<close> removes every dash of its argument, also
  the dashes that were part of the short identifier, so the round trip gives the identifier
  back only when it contains no dash. For every identifier \<open>s\<close> of at most eight characters
  without a dash, \<open>uuidToRoomId (roomIdToUUID s)\<close> is \<open>s\<close> filled with \<open>0\<close> up to eight
  characters; when \<open>s\<close> has exactly eight characters this is \<open>s\<close> itself.
\<close>

theorem uuidToRoomId_roomIdToUUID:
  assumes "CHR ''-'' \<notin> set s" and "length s \<le> 8"
  shows "uuidToRoomId (roomIdToUUID s) = s @ replicate (8 - length s) (CHR ''0'')
       \<and> (length s = 8 \<longrightarrow> uuidToRoomId (roomIdToUUID s) = s)"
proof -
  have "uuidToRoomId (roomIdToUUID s) = take 8 (take 32 (padEnd s 32 (CHR ''0'')))"
    by (simp add: uuidToRoomId_def slice_def strip_roomIdToUUID [OF assms(1)])
  also have "\<dots> = take 8 (padEnd s 32 (CHR ''0''))" by simp
  also have "\<dots> = s @ replicate (8 - length s) (CHR ''0'')"
    using assms(2) by (simp add: padEnd_def min_def)
  finally have "uuidToRoomId (roomIdToUUID s) = s @ replicate (8 - length s) (CHR ''0'')" .
  then show ?thesis by simp
qed

theorem uuidToRoomId_roomIdToUUID_witness:
  "CHR ''-'' \<notin> set ''ab12cd34'' \<and> length ''ab12cd34'' \<le> 8
   \<and> uuidToRoomId (roomIdToUUID ''ab12cd34'') = ''ab12cd34''
   \<and> CHR ''-'' \<notin> set ''room'' \<and> length ''room'' \<le> 8
   \<and> uuidToRoomId (roomIdToUUID ''room'') = ''room0000''"
proof -
  have a: "CHR ''-'' \<notin> set ''ab12cd34''" and b: "length ''ab12cd34'' \<le> 8" by simp_all
  have c: "CHR ''-'' \<notin> set ''room''" and d: "length ''room'' \<le> 8" by simp_all
  have "replicate (8 - length ''room'') (CHR ''0'') = ''0000''" by (simp add: eval_nat_numeral)
  with uuidToRoomId_roomIdToUUID [OF a b] uuidToRoomId_roomIdToUUID [OF c d] a b c d
  show ?thesis by simp
qed

text \<open>
  The claim as it is written, for every string of exactly eight characters, fails on an
  identifier with a dash in it: \<open>abcd-efg\<close> becomes the UUID
  \<open>abcd-efg-0000-0000-0000-000000000000\<close>, which is read back as \<open>abcdefg0\<close>.
\<close>

theorem uuidToRoomId_roomIdToUUID_counterexample:
  "length ''abcd-efg'' = 8 \<and> uuidToRoomId (roomIdToUUID ''abcd-efg'') \<noteq> ''abcd-efg''"
  by (simp add: uuidToRoomId_def roomIdToUUID_def padEnd_def slice_def eval_nat_numeral)

section \<open>Idempotent, order-independent delivery\<close>

lemma list_ex_id: "list_ex (\<lambda>op. op_id op = i) prev \<longleftrightarrow> i \<in> op_id ` set prev"
  by (induction prev) auto

lemma addOperation_known: "op_id operation \<in> op_id ` set prev \<Longrightarrow> addOperation operation prev = prev"
  by (simp add: addOperation_def list_ex_id)

lemma addOperation_new:
  "op_id operation \<notin> op_id ` set prev \<Longrightarrow>
     addOperation operation prev = sort_key op_sequence (prev @ [operation])"
  by (simp add: addOperation_def list_ex_id)

lemma id_in_addOperation: "op_id operation \<in> op_id ` set (addOperation operation prev)"
  by (simp add: addOperation_def list_ex_id)

text \<open>
  Claim C8. When the identifier of an operation already occurs in the client's operations
  list, \<open>addOperation\<close> returns the list as it was; so delivering an operation a second
  time changes nothing, whatever the list was before the first delivery.
\<close>

theorem addOperation_duplicate_noop:
  "(op_id operation \<in> op_id ` set prev \<longrightarrow> addOperation operation prev = prev)
   \<and> addOperation operation (addOperation operation prev) = addOperation operation prev"
  by (intro conjI impI addOperation_known id_in_addOperation)

theorem addOperation_duplicate_noop_witness:
  "op_id (clear_op ''a'' 1) \<in> op_id ` set [clear_op ''b'' 2, clear_op ''a'' 1]
   \<and> addOperation (clear_op ''a'' 1) [clear_op ''b'' 2, clear_op ''a'' 1]
       = [clear_op ''b'' 2, clear_op ''a'' 1]"
proof -
  have h: "op_id (clear_op ''a'' 1) \<in> op_id ` set [clear_op ''b'' 2, clear_op ''a'' 1]"
    by (simp add: clear_op_def)
  from addOperation_duplicate_noop [of "clear_op ''a'' 1" "[clear_op ''b'' 2, clear_op ''a'' 1]"]
  have "op_id (clear_op ''a'' 1) \<in> op_id ` set [clear_op ''b'' 2, clear_op ''a'' 1] \<longrightarrow>
        addOperation (clear_op ''a'' 1) [clear_op ''b'' 2, clear_op ''a'' 1]
          = [clear_op ''b'' 2, clear_op ''a'' 1]" by (rule conjunct1)
  with h show ?thesis by simp
qed

lemma sort_key_stable_flip:
  "filter (\<lambda>y. k = f y) (sort_key f xs) = filter (\<lambda>y. k = f y) xs"
proof -
  have "(\<lambda>y. k = f y) = (\<lambda>y. f y = k)" by auto
  then show ?thesis by (simp only: sort_key_stable)
qed

lemma resort_snoc:
  "sort_key f (sort_key f xs @ [x]) = sort_key f (xs @ [x])"
proof (rule properties_for_sort_key)
  show "mset (sort_key f (xs @ [x])) = mset (sort_key f xs @ [x])" by simp
  show "sorted (map f (sort_key f (xs @ [x])))" by (rule sorted_sort_key)
  fix k
  have "filter (\<lambda>y. f k = f y) (sort_key f (xs @ [x])) = filter (\<lambda>y. f k = f y) (xs @ [x])"
    by (rule sort_key_stable_flip)
  also have "\<dots> = filter (\<lambda>y. f k = f y) xs @ filter (\<lambda>y. f k = f y) [x]"
    by (rule filter_append)
  also have "filter (\<lambda>y. f k = f y) xs = filter (\<lambda>y. f k = f y) (sort_key f xs)"
    by (rule sort_key_stable_flip [symmetric])
  finally show "filter (\<lambda>y. f k = f y) (sort_key f (xs @ [x])) = filter (\<lambda>y. f k = f y) (sort_key f xs @ [x])"
    by (simp only: filter_append)
qed

lemma deliver_snoc: "deliver (xs @ [x]) = addOperation x (deliver xs)"
  by (simp add: deliver_def)

lemma deliver_sort:
  "distinct (map op_id xs) \<Longrightarrow> deliver xs = sort_key op_sequence xs"
proof (induction xs rule: rev_induct)
  case Nil
  show ?case by (simp add: deliver_def)
next
  case (snoc x xs)
  then have ih: "deliver xs = sort_key op_sequence xs" by simp
  from snoc.prems have "op_id x \<notin> op_id ` set (deliver xs)" by (simp add: ih)
  then show ?case
    by (simp add: deliver_snoc addOperation_new ih resort_snoc)
qed

lemma filter_key_none:
  "f k \<notin> f ` set xs \<Longrightarrow> filter (\<lambda>x. f k = f x) xs = []"
  by (induction xs) auto

lemma filter_key_single:
  "distinct (map f xs) \<Longrightarrow> k \<in> set xs \<Longrightarrow> filter (\<lambda>x. f k = f x) xs = [k]"
proof (induction xs)
  case Nil
  then show ?case by simp
next
  case (Cons a xs)
  from Cons.prems(1) have na: "f a \<notin> f ` set xs" and dxs: "distinct (map f xs)" by simp_all
  show ?case
  proof (cases "a = k")
    case True
    with na have "filter (\<lambda>x. f k = f x) xs = []" by (intro filter_key_none) simp
    with True show ?thesis by simp
  next
    case False
    with Cons.prems(2) have kx: "k \<in> set xs" by simp
    then have "f k \<in> f ` set xs" by (rule imageI)
    have ne: "f k \<noteq> f a"
    proof
      assume "f k = f a"
      with \<open>f k \<in> f ` set xs\<close> na show False by simp
    qed
    have "filter (\<lambda>x. f k = f x) xs = [k]" using dxs kx by (rule Cons.IH)
    with ne show ?thesis by simp
  qed
qed

lemma distinct_map_perm:
  assumes "mset xs = mset ys" and "distinct (map f ys)"
  shows "distinct (map f xs)"
proof -
  have "mset (map f xs) = mset (map f ys)" by (simp only: mset_map assms(1))
  then have "distinct (map f xs) \<longleftrightarrow> distinct (map f ys)" by (rule mset_eq_imp_distinct_iff)
  with assms(2) show ?thesis by simp
qed

lemma sort_key_perm:
  assumes "mset xs = mset ys" and "distinct (map f ys)"
  shows "sort_key f xs = sort_key f ys"
proof (rule properties_for_sort_key)
  show "mset (sort_key f ys) = mset xs" by (simp only: mset_sort assms(1))
  show "sorted (map f (sort_key f ys))" by simp
  fix k assume "k \<in> set (sort_key f ys)"
  then have k: "k \<in> set ys" by simp
  have dx: "distinct (map f xs)"
    using assms by (rule distinct_map_perm)
  have ds: "distinct (map f (sort_key f ys))"
    by (rule distinct_map_perm [OF _ assms(2)]) simp
  have "set xs = set ys" using assms(1) by (rule mset_eq_setD)
  with k have "k \<in> set xs" by simp
  then have "filter (\<lambda>x. f k = f x) xs = [k]" by (rule filter_key_single [OF dx])
  moreover have "filter (\<lambda>x. f k = f x) (sort_key f ys) = [k]"
    by (rule filter_key_single [OF ds]) fact
  ultimately show "filter (\<lambda>x. f k = f x) (sort_key f ys) = filter (\<lambda>x. f k = f x) xs" by simp
qed

text \<open>
  Claim C9. Committed operations carry the sequence numbers the log assigned to them, which
  are pairwise distinct (lemma \<open>committed_operations_distinct_sequences\<close>), as their
  identifiers are. For such a set \<open>ops\<close>, delivering its
  members one at a time with \<open>addOperation\<close> in any order of arrival to a client that starts
  with an empty list, or handing them over at once to \<open>setOperations\<close> in any order, gives
  one and the same list: the members of \<open>ops\<close> in ascending order of sequence.
\<close>

theorem delivery_order_irrelevant:
  assumes "distinct (map op_id ops)" and "distinct (map op_sequence ops)"
    and "mset arrivals = mset ops" and "mset batch = mset ops"
  shows "deliver arrivals = setOperations batch
       \<and> deliver arrivals = deliver ops
       \<and> sorted (map op_sequence (deliver arrivals))
       \<and> mset (deliver arrivals) = mset ops"
proof -
  have da: "distinct (map op_id arrivals)"
    using assms(3,1) by (rule distinct_map_perm)
  have "deliver arrivals = sort_key op_sequence arrivals" by (rule deliver_sort [OF da])
  also have "\<dots> = sort_key op_sequence ops" by (rule sort_key_perm [OF assms(3) assms(2)])
  finally have a: "deliver arrivals = sort_key op_sequence ops" .
  have "setOperations batch = sort_key op_sequence batch" by (simp add: setOperations_def)
  also have "\<dots> = sort_key op_sequence ops" by (rule sort_key_perm [OF assms(4) assms(2)])
  finally have b: "setOperations batch = sort_key op_sequence ops" .
  have c: "deliver ops = sort_key op_sequence ops" by (rule deliver_sort [OF assms(1)])
  show ?thesis unfolding a b c by simp
qed

theorem delivery_order_irrelevant_witness:
  "distinct (map op_id [clear_op ''a'' 1, clear_op ''b'' 2])
   \<and> distinct (map op_sequence [clear_op ''a'' 1, clear_op ''b'' 2])
   \<and> mset [clear_op ''b'' 2, clear_op ''a'' 1] = mset [clear_op ''a'' 1, clear_op ''b'' 2]
   \<and> deliver [clear_op ''b'' 2, clear_op ''a'' 1] = setOperations [clear_op ''b'' 2, clear_op ''a'' 1]
   \<and> deliver [clear_op ''b'' 2, clear_op ''a'' 1] = deliver [clear_op ''a'' 1, clear_op ''b'' 2]"
proof -
  have h1: "distinct (map op_id [clear_op ''a'' 1, clear_op ''b'' 2])"
    and h2: "distinct (map op_sequence [clear_op ''a'' 1, clear_op ''b'' 2])"
    by (simp_all add: clear_op_def)
  have h3: "mset [clear_op ''b'' 2, clear_op ''a'' 1] = mset [clear_op ''a'' 1, clear_op ''b'' 2]"
    by simp
  note t = delivery_order_irrelevant [OF h1 h2 h3 h3]
  from t have c1: "deliver [clear_op ''b'' 2, clear_op ''a'' 1]
                   = setOperations [clear_op ''b'' 2, clear_op ''a'' 1]"
    by (rule conjunct1)
  from t have c2: "deliver [clear_op ''b'' 2, clear_op ''a'' 1]
                   = deliver [clear_op ''a'' 1, clear_op ''b'' 2]"
    by (rule conjunct1 [OF conjunct2])
  from h1 h2 h3 c1 c2 show ?thesis by (intro conjI)
qed

section \<open>Distance filtering\<close>

subsection \<open>Rounding to a double\<close>

lemma binary64_0: "binary64 0 = 0"
  by (simp add: binary64_def)

lemma binary64_at:
  fixes e :: nat
  assumes e: "e \<le> 52" and lo: "2 ^ e \<le> \<bar>x\<bar>" and hi: "\<bar>x\<bar> < 2 ^ Suc e"
  shows "binary64 x = of_int (rne (x * 2 ^ (52 - e))) / 2 ^ (52 - e)"
proof -
  have "(0::real) < 2 ^ e" by simp
  with lo have pos: "0 < \<bar>x\<bar>" by linarith
  then have nz: "x \<noteq> 0" by simp
  have b: "(1::real) < 2" by simp
  have p1: "2 powr real_of_int (int e) = (2::real) ^ e"
    by (simp add: powr_realpow)
  have "2 powr real_of_int (int e + 1) = 2 powr real (Suc e)"
    by (simp add: add.commute)
  also have "\<dots> = (2::real) ^ Suc e" by (rule powr_realpow) simp
  finally have p2: "2 powr real_of_int (int e + 1) = (2::real) ^ Suc e" .
  have "2 powr real_of_int (int e) \<le> \<bar>x\<bar> \<and> \<bar>x\<bar> < 2 powr real_of_int (int e + 1)"
    using lo hi by (simp only: p1 p2)
  then have fl: "\<lfloor>log 2 \<bar>x\<bar>\<rfloor> = int e"
    by (simp only: floor_log_eq_powr_iff [OF pos b])
  have "real e - 52 = - real (52 - e)" using e by simp
  then have "2 powr (real e - 52) = inverse (2 powr real (52 - e))"
    by (simp only: powr_minus)
  also have "2 powr real (52 - e) = (2::real) ^ (52 - e)" by (rule powr_realpow) simp
  finally have u: "2 powr (real e - 52) = inverse ((2::real) ^ (52 - e))" .
  have "binary64 x = 2 powr (real e - 52) * of_int (rne (x / 2 powr (real e - 52)))"
    using nz by (simp add: binary64_def fl Let_def)
  also have "\<dots> = inverse (2 ^ (52 - e)) * of_int (rne (x / inverse (2 ^ (52 - e))))"
    by (simp only: u)
  also have "\<dots> = of_int (rne (x * 2 ^ (52 - e))) / 2 ^ (52 - e)"
    by (simp add: divide_inverse mult.commute)
  finally show ?thesis .
qed

lemma binary64_small: "binary64 1 = 1" "binary64 2 = 2" "binary64 4 = 4" "binary64 5 = 5"
     "binary64 25 = 25"
proof -
  show "binary64 1 = 1" using binary64_at [of 0 1] by (simp add: rne_def)
  show "binary64 2 = 2" using binary64_at [of 1 2] by (simp add: rne_def)
  show "binary64 4 = 4" using binary64_at [of 2 4] by (simp add: rne_def)
  show "binary64 5 = 5" using binary64_at [of 2 5] by (simp add: rne_def)
  show "binary64 25 = 25" using binary64_at [of 4 25] by (simp add: rne_def)
qed

lemma sqrt_25: "sqrt 25 = 5"
  by (rule real_sqrt_unique) simp_all

lemma binary64_x: "binary64 (3152519739159347 / 2251799813685248) = 3152519739159347 / 2251799813685248"
  using binary64_at [of 0 "3152519739159347 / 2251799813685248"] by (simp add: rne_def)

lemma binary64_y: "binary64 (5404319552844595 / 1125899906842624) = 5404319552844595 / 1125899906842624"
  using binary64_at [of 2 "5404319552844595 / 1125899906842624"] by (simp add: rne_def)

lemma binary64_xx:
  "binary64 ((3152519739159347 / 2251799813685248)\<^sup>2) = 8827055269646171 / 4503599627370496"
  using binary64_at [of 0 "(3152519739159347 / 2251799813685248)\<^sup>2"]
  by (simp add: rne_def power2_eq_square)

lemma binary64_yy:
  "binary64 ((5404319552844595 / 1125899906842624)\<^sup>2) = 3242591731706757 / 140737488355328"
  using binary64_at [of 4 "(5404319552844595 / 1125899906842624)\<^sup>2"]
  by (simp add: rne_def power2_eq_square)

lemma binary64_sum:
  "binary64 (8827055269646171 / 4503599627370496 + 3242591731706757 / 140737488355328) = 25"
  using binary64_at [of 4 "8827055269646171 / 4503599627370496 + 3242591731706757 / 140737488355328"]
  by (simp add: rne_def)

lemma binary64_sum':
  "binary64 (112589990684262395 / 4503599627370496) = 25"
  using binary64_sum by simp

text \<open>The computed distance is exact on the column \<open>(0,0)\<close>, \<open>(0,1)\<close>, \<open>(0,2)\<close> and on
  the triangle 3, 4, 5; at \<open>(1.4, 4.8)\<close> the sum of the two rounded squares rounds up to 25,
  so the computed distance from the origin is 5 while the Euclidean distance of the two
  points is below 5.\<close>

lemma distance_column_01: "distance (column_heap 0) (column_heap 1) = 1"
  by (simp add: distance_def column_heap_def binary64_0 binary64_small)

lemma distance_column_02: "distance (column_heap 0) (column_heap 2) = 2"
  by (simp add: distance_def column_heap_def binary64_0 binary64_small)

lemma distance_3_4_5:
  "distance \<lparr>p_x = 0, p_y = 0, p_pressure = None, p_timestamp = 0\<rparr>
            \<lparr>p_x = 3, p_y = 4, p_pressure = None, p_timestamp = 1\<rparr> = 5"
  using binary64_at [of 1 3] binary64_at [of 3 9] binary64_at [of 4 16]
  by (simp add: distance_def binary64_0 binary64_small rne_def sqrt_25)

lemma distance_rounds_up: "distance (rounding_heap 0) (rounding_heap 1) = 5"
  by (simp add: distance_def rounding_heap_def binary64_x binary64_y binary64_xx binary64_yy
      binary64_sum' sqrt_25 binary64_small)

lemma euclidean_below: "euclidean (rounding_heap 0) (rounding_heap 1) < 5"
proof -
  have "(3152519739159347 / 2251799813685248)\<^sup>2 + (5404319552844595 / 1125899906842624)\<^sup>2
        < (25::real)" by (simp add: power2_eq_square)
  then have "sqrt ((3152519739159347 / 2251799813685248)\<^sup>2
                   + (5404319552844595 / 1125899906842624)\<^sup>2) < sqrt 25"
    by (simp only: real_sqrt_less_iff)
  then show ?thesis by (simp add: euclidean_def rounding_heap_def sqrt_25)
qed

subsection \<open>The loop\<close>

lemma filter_loop_snoc:
  "filter_loop h md f (rest @ [z]) =
     (if md \<le> distance (h (last (filter_loop h md f rest))) (h z)
      then filter_loop h md f rest @ [z] else filter_loop h md f rest)"
  by (induction rest arbitrary: f) simp_all

lemma filter_loop_kept:
  "\<exists>kept. filter_loop h md f rest = f @ kept \<and> subseq kept rest"
proof (induction rest arbitrary: f)
  case Nil
  show ?case by simp
next
  case (Cons p rest)
  show ?case
  proof (cases "md \<le> distance (h (last f)) (h p)")
    case True
    from Cons [of "f @ [p]"] obtain kept
      where "filter_loop h md (f @ [p]) rest = (f @ [p]) @ kept" "subseq kept rest" by blast
    with True have "filter_loop h md f (p # rest) = f @ (p # kept) \<and> subseq (p # kept) (p # rest)"
      by simp
    then show ?thesis by blast
  next
    case False
    from Cons [of f] obtain kept
      where "filter_loop h md f rest = f @ kept" "subseq kept rest" by blast
    with False have "filter_loop h md f (p # rest) = f @ kept \<and> subseq kept (p # rest)"
      by (simp add: list_emb_Cons)
    then show ?thesis by blast
  qed
qed

lemma filter_loop_spaced:
  "f \<noteq> [] \<Longrightarrow> successively (\<lambda>a b. md \<le> distance (h a) (h b)) f \<Longrightarrow>
   successively (\<lambda>a b. md \<le> distance (h a) (h b)) (filter_loop h md f rest)"
proof (induction rest arbitrary: f)
  case Nil
  then show ?case by simp
next
  case (Cons p rest)
  show ?case
  proof (cases "md \<le> distance (h (last f)) (h p)")
    case True
    with Cons.prems have "successively (\<lambda>a b. md \<le> distance (h a) (h b)) (f @ [p])"
      by (simp add: successively_append_iff)
    then have "successively (\<lambda>a b. md \<le> distance (h a) (h b)) (filter_loop h md (f @ [p]) rest)"
      by (intro Cons.IH) simp_all
    with True show ?thesis by simp
  next
    case False
    with Cons.IH [OF Cons.prems] show ?thesis by simp
  qed
qed

lemma spaced_all_but_last:
  assumes "successively (\<lambda>a b. md \<le> distance (h a) (h b)) (butlast r)"
  shows "\<forall>j. Suc (Suc j) < length r \<longrightarrow> md \<le> distance (h (r ! j)) (h (r ! Suc j))"
proof (intro allI impI)
  fix j assume j: "Suc (Suc j) < length r"
  then have "Suc j < length (butlast r)" by simp
  with assms have "md \<le> distance (h (butlast r ! j)) (h (butlast r ! Suc j))"
    by (simp add: successively_conv_nth)
  moreover have "butlast r ! j = r ! j" "butlast r ! Suc j = r ! Suc j"
    using j by (simp_all add: nth_butlast)
  ultimately show "md \<le> distance (h (r ! j)) (h (r ! Suc j))" by simp
qed

lemma filterNearbyPoints_shape:
  assumes "points = a # mid @ [z]"
  shows "\<exists>kept. subseq kept (mid @ [z]) \<and> filterNearbyPoints h points md = a # kept
           \<and> last (a # kept) = z
           \<and> successively (\<lambda>a b. md \<le> distance (h a) (h b)) (butlast (a # kept))"
proof -
  let ?P = "\<lambda>a b. md \<le> distance (h a) (h b)"
  let ?g = "filter_loop h md [a] mid"
  obtain kept where g: "?g = [a] @ kept" and sub: "subseq kept mid"
    using filter_loop_kept [of h md "[a]" mid] by blast
  have sp: "successively ?P ?g" by (rule filter_loop_spaced) simp_all
  have len: "\<not> length points < 2" using assms by simp
  have hd: "hd points = a" and tl: "tl points = mid @ [z]" and la: "last points = z"
    using assms by simp_all
  have unfold: "filterNearbyPoints h points md =
      (if last (filter_loop h md [a] (mid @ [z])) \<noteq> z
       then filter_loop h md [a] (mid @ [z]) @ [z] else filter_loop h md [a] (mid @ [z]))"
    using len by (simp add: filterNearbyPoints_def hd tl la Let_def)
  show ?thesis
  proof (cases "md \<le> distance (h (last ?g)) (h z) \<or> last ?g \<noteq> z")
    case True
    then have r: "filterNearbyPoints h points md = ?g @ [z]"
      by (auto simp: unfold filter_loop_snoc)
    have "subseq (kept @ [z]) (mid @ [z])" using sub by (simp add: list_emb_append_mono)
    moreover have "filterNearbyPoints h points md = a # (kept @ [z])" using r g by simp
    moreover have "butlast (a # (kept @ [z])) = ?g" using g by (simp add: butlast_append)
    ultimately show ?thesis using sp by (intro exI [of _ "kept @ [z]"]) simp
  next
    case False
    then have r: "filterNearbyPoints h points md = ?g" and lz: "last ?g = z"
      by (auto simp: unfold filter_loop_snoc)
    have "subseq kept (mid @ [z])" using sub by (rule list_emb_prefix)
    moreover have "filterNearbyPoints h points md = a # kept" using r g by simp
    moreover have "last (a # kept) = z" using lz g by simp
    moreover have "successively ?P (butlast (a # kept))"
    proof -
      have "successively ?P (a # kept)" using sp g by simp
      then have "successively ?P (butlast (a # kept) @ [last (a # kept)])"
        by (simp only: append_butlast_last_id [OF list.distinct(2)])
      then show ?thesis by (simp only: successively_append_iff)
    qed
    ultimately show ?thesis by (intro exI [of _ kept]) simp
  qed
qed

lemma filterNearbyPoints_structure:
  assumes "points \<noteq> []"
  shows "filterNearbyPoints h points md \<noteq> []
       \<and> hd (filterNearbyPoints h points md) = hd points
       \<and> last (filterNearbyPoints h points md) = last points
       \<and> subseq (filterNearbyPoints h points md) points
       \<and> (\<forall>j. Suc (Suc j) < length (filterNearbyPoints h points md) \<longrightarrow>
             md \<le> distance (h (filterNearbyPoints h points md ! j))
                            (h (filterNearbyPoints h points md ! Suc j)))"
proof -
  show ?thesis
  proof (cases "length points < 2")
    case True
    with assms obtain a where "points = [a]" by (cases points) auto
    then show ?thesis by (simp add: filterNearbyPoints_def)
  next
    case False
    then obtain a rest where p: "points = a # rest" and "rest \<noteq> []" by (cases points) auto
    then obtain mid z where "rest = mid @ [z]" by (metis append_butlast_last_id)
    with p have pts: "points = a # mid @ [z]" by simp
    from filterNearbyPoints_shape [OF pts, of h md] obtain kept
      where sub: "subseq kept (mid @ [z])"
        and r: "filterNearbyPoints h points md = a # kept"
        and la: "last (a # kept) = z"
        and sp: "successively (\<lambda>a b. md \<le> distance (h a) (h b)) (butlast (a # kept))"
      by blast
    have "subseq (a # kept) points" using sub pts by simp
    moreover have "last points = z" "hd points = a" using pts by simp_all
    moreover note spaced_all_but_last [OF sp]
    ultimately show ?thesis using la by (simp only: r) simp
  qed
qed

lemma filter_loop_kept_after:
  "filtered \<noteq> [] \<Longrightarrow>
   filter_loop h md filtered rest = filtered @ kept_after h md (last filtered) rest"
  by (induction rest arbitrary: filtered) simp_all

lemma filterNearbyPoints_exact:
  assumes "points \<noteq> []"
  shows "filterNearbyPoints h points md =
     (if tl points \<noteq> [] \<and> last (hd points # kept_after h md (hd points) (tl points)) \<noteq> last points
      then hd points # kept_after h md (hd points) (tl points) @ [last points]
      else hd points # kept_after h md (hd points) (tl points))"
proof (cases "tl points = []")
  case True
  with assms obtain a where "points = [a]" by (cases points) auto
  then show ?thesis by (simp add: filterNearbyPoints_def)
next
  case False
  then have len: "\<not> length points < 2" by (cases points) auto
  have loop: "filter_loop h md [hd points] (tl points)
              = hd points # kept_after h md (hd points) (tl points)"
    using filter_loop_kept_after [of "[hd points]" h md "tl points"] by simp
  show ?thesis using len False by (simp add: filterNearbyPoints_def Let_def loop)
qed

lemma filterNearbyPoints_column:
  "filterNearbyPoints column_heap [0, 1, 2] (minDist 20) = [0, 2]"
  by (simp add: filterNearbyPoints_def distance_column_01 [unfolded One_nat_def]
      distance_column_02 minDist_def)

lemma filterNearbyPoints_rounding:
  "filterNearbyPoints rounding_heap [0, 1, 2] (minDist 20) = [0, 1, 2]"
proof -
  have m: "minDist 20 = 5" by (simp add: minDist_def)
  have "filter_loop rounding_heap 5 [0] [1, 2]
        = (if 5 \<le> distance (rounding_heap 1) (rounding_heap 2) then [0, 1, 2] else [0, 1])"
    by (simp add: distance_rounds_up [unfolded One_nat_def])
  then show ?thesis by (simp add: filterNearbyPoints_def m)
qed

subsection \<open>What the filter keeps\<close>

text \<open>
  Claim C7, with the distance as the code computes it. For every non-empty array of raw
  points and the threshold \<open>minDist width\<close>, that is \<open>max(1, width/4)\<close>, the filtered array is
  not empty, starts with the first raw point, ends with the final raw point and keeps raw
  points in their order; every kept point other than the final one has a computed distance
  of at least the threshold from the point kept before it. The points kept are exactly the
  first point, then each later point whose computed distance from the point kept last is at
  least the threshold, then the final raw point when it is not the object kept last. The
  store with the points \<open>(0,0)\<close>, \<open>(0,1)\<close>, \<open>(0,2)\<close> at references 0, 1, 2 and the threshold
  \<open>minDist 20 = 5\<close> give the first and the final point.
\<close>

theorem filterNearbyPoints_keeps:
  assumes "points \<noteq> []"
  shows "filterNearbyPoints h points (minDist width) \<noteq> []
       \<and> hd (filterNearbyPoints h points (minDist width)) = hd points
       \<and> last (filterNearbyPoints h points (minDist width)) = last points
       \<and> subseq (filterNearbyPoints h points (minDist width)) points
       \<and> (\<forall>j. Suc (Suc j) < length (filterNearbyPoints h points (minDist width)) \<longrightarrow>
             minDist width \<le> distance (h (filterNearbyPoints h points (minDist width) ! j))
                                       (h (filterNearbyPoints h points (minDist width) ! Suc j)))
       \<and> filterNearbyPoints h points (minDist width) =
           (if tl points \<noteq> []
               \<and> last (hd points # kept_after h (minDist width) (hd points) (tl points))
                   \<noteq> last points
            then hd points # kept_after h (minDist width) (hd points) (tl points) @ [last points]
            else hd points # kept_after h (minDist width) (hd points) (tl points))
       \<and> filterNearbyPoints column_heap [0, 1, 2] (minDist 20) = [0, 2]"
  using filterNearbyPoints_structure [OF assms, of h "minDist width"]
    filterNearbyPoints_exact [OF assms, of h "minDist width"] filterNearbyPoints_column
  by (intro conjI) (elim conjE, assumption)+

theorem filterNearbyPoints_keeps_witness:
  "[0, 1, 2 :: ref] \<noteq> []
   \<and> filterNearbyPoints column_heap [0, 1, 2] (minDist 20) = [0, 2]
   \<and> last (filterNearbyPoints column_heap [0, 1, 2] (minDist 20)) = last [0, 1, 2]
   \<and> minDist 20 = 5
   \<and> map (\<lambda>r. (p_x (column_heap r), p_y (column_heap r)))
         (filterNearbyPoints column_heap [0, 1, 2] (minDist 20)) = [(0, 0), (0, 2)]"
proof -
  have h: "[0, 1, 2 :: ref] \<noteq> []" by simp
  have m: "minDist 20 = 5" by (simp add: minDist_def)
  note t = filterNearbyPoints_keeps [OF h, of column_heap 20]
  from t have l: "last (filterNearbyPoints column_heap [0, 1, 2] (minDist 20)) = last [0, 1, 2]"
    by (elim conjE)
  from t have e: "filterNearbyPoints column_heap [0, 1, 2] (minDist 20) = [0, 2]"
    by (elim conjE)
  have c: "map (\<lambda>r. (p_x (column_heap r), p_y (column_heap r)))
             (filterNearbyPoints column_heap [0, 1, 2] (minDist 20)) = [(0, 0), (0, 2)]"
    by (simp only: e) (simp add: column_heap_def)
  from h e l m c show ?thesis by (intro conjI)
qed

text \<open>
  With the Euclidean distance of the claim as it is written, in exact arithmetic, the
  claim fails where rounding lifts a computed distance to the threshold. In the store with
  \<open>(0,0)\<close>, \<open>(1.4,4.8)\<close>, \<open>(2,6)\<close> and the threshold 5, the point \<open>(1.4,4.8)\<close> is kept, though
  it is not the final point and its Euclidean distance from \<open>(0,0)\<close>, the point kept before
  it, is below 5.
\<close>

theorem filterNearbyPoints_keeps_counterexample:
  "filterNearbyPoints rounding_heap [0, 1, 2] (minDist 20) = [0, 1, 2]
   \<and> distance (rounding_heap 0) (rounding_heap 1) = minDist 20
   \<and> euclidean (rounding_heap 0) (rounding_heap 1) < minDist 20
   \<and> \<not> (\<forall>j. Suc (Suc j) < length (filterNearbyPoints rounding_heap [0, 1, 2] (minDist 20)) \<longrightarrow>
             minDist 20 \<le> euclidean
               (rounding_heap (filterNearbyPoints rounding_heap [0, 1, 2] (minDist 20) ! j))
               (rounding_heap (filterNearbyPoints rounding_heap [0, 1, 2] (minDist 20) ! Suc j)))"
proof -
  have m: "minDist 20 = 5" by (simp add: minDist_def)
  have r: "filterNearbyPoints rounding_heap [0, 1, 2] (minDist 20) = [0, 1, 2]"
    by (rule filterNearbyPoints_rounding)
  have d: "distance (rounding_heap 0) (rounding_heap 1) = minDist 20"
    by (simp only: distance_rounds_up m)
  have e: "euclidean (rounding_heap 0) (rounding_heap 1) < minDist 20"
    using euclidean_below by (simp only: m)
  have n: "\<not> (\<forall>j. Suc (Suc j) < length (filterNearbyPoints rounding_heap [0, 1, 2] (minDist 20)) \<longrightarrow>
             minDist 20 \<le> euclidean
               (rounding_heap (filterNearbyPoints rounding_heap [0, 1, 2] (minDist 20) ! j))
               (rounding_heap (filterNearbyPoints rounding_heap [0, 1, 2] (minDist 20) ! Suc j)))"
  proof
    assume "\<forall>j. Suc (Suc j) < length (filterNearbyPoints rounding_heap [0, 1, 2] (minDist 20)) \<longrightarrow>
             minDist 20 \<le> euclidean
               (rounding_heap (filterNearbyPoints rounding_heap [0, 1, 2] (minDist 20) ! j))
               (rounding_heap (filterNearbyPoints rounding_heap [0, 1, 2] (minDist 20) ! Suc j))"
    then have "Suc (Suc 0) < length [0, 1, 2 :: ref] \<longrightarrow>
             minDist 20 \<le> euclidean (rounding_heap ([0, 1, 2] ! 0)) (rounding_heap ([0, 1, 2] ! Suc 0))"
      unfolding r by (rule spec)
    then have "minDist 20 \<le> euclidean (rounding_heap 0) (rounding_heap 1)" by simp
    with e show False by simp
  qed
  from r d e n show ?thesis by (intro conjI)
qed

section \<open>Selecting the newest row\<close>

lemma sorted_last_max:
  assumes "sorted (map k s)" and "x \<in> set s"
  shows "k x \<le> k (last s)"
proof -
  from assms(2) have ne: "s \<noteq> []" by auto
  then have s: "s = butlast s @ [last s]" by simp
  from assms(1) have "sorted (map k (butlast s) @ [k (last s)])"
    by (subst (asm) s) simp
  then have "\<forall>y\<in>set (map k (butlast s)). y \<le> k (last s)"
    by (simp add: sorted_append)
  moreover from assms(2) have "x \<in> set (butlast s) \<or> x = last s"
    by (subst (asm) s) auto
  ultimately show ?thesis by auto
qed

lemma limit_single_Nil: "limit_single (order_desc k []) = None"
  by (simp add: limit_single_def order_desc_def)

lemma limit_single_rev_snoc: "limit_single (rev (ys @ [l])) = Some l"
  by (simp add: limit_single_def)

lemma limit_single_max:
  assumes "xs \<noteq> []"
  shows "\<exists>m. limit_single (order_desc k xs) = Some m \<and> m \<in> set xs \<and> (\<forall>x\<in>set xs. k x \<le> k m)"
proof -
  define s where "s = sort_key k xs"
  have "length s = length xs" by (simp add: s_def)
  with assms have ne: "s \<noteq> []" by auto
  then have "butlast s @ [last s] = s" by (rule append_butlast_last_id)
  then have "limit_single (rev s) = limit_single (rev (butlast s @ [last s]))" by (rule arg_cong [OF sym])
  then have sel: "limit_single (order_desc k xs) = Some (last s)"
    by (simp only: limit_single_rev_snoc order_desc_def s_def)
  have "last s \<in> set s" using ne by (rule last_in_set)
  then have mem: "last s \<in> set xs" by (simp add: s_def)
  have srt: "sorted (map k s)" by (simp add: s_def)
  have "\<forall>x\<in>set xs. k x \<le> k (last s)"
  proof
    fix x assume "x \<in> set xs"
    then have "x \<in> set s" by (simp add: s_def)
    with srt show "k x \<le> k (last s)" by (rule sorted_last_max)
  qed
  with sel mem show ?thesis by blast
qed

lemma limit_single_strict_max:
  assumes "m \<in> set xs" and "\<forall>x\<in>set xs. x \<noteq> m \<longrightarrow> k x < k m"
  shows "limit_single (order_desc k xs) = Some m"
proof -
  from assms(1) have "xs \<noteq> []" by auto
  from limit_single_max [OF this, of k] obtain m'
    where sel: "limit_single (order_desc k xs) = Some m'" and mem: "m' \<in> set xs"
      and mx: "\<forall>x\<in>set xs. k x \<le> k m'" by blast
  have "m' = m"
  proof (rule ccontr)
    assume "m' \<noteq> m"
    with assms(2) mem have "k m' < k m" by simp
    moreover from mx assms(1) have "k m \<le> k m'" by simp
    ultimately show False by simp
  qed
  with sel show ?thesis by simp
qed

lemma order_desc_mset: "mset (order_desc k xs) = mset xs"
  by (simp add: order_desc_def)





lemma filter_remove1:
  "distinct (map f xs) \<Longrightarrow> m \<in> set xs \<Longrightarrow> filter (\<lambda>r. f r \<noteq> f m) xs = remove1 m xs"
proof (induction xs)
  case Nil
  then show ?case by simp
next
  case (Cons a xs)
  from Cons.prems(1) have na: "f a \<notin> f ` set xs" and dxs: "distinct (map f xs)" by simp_all
  show ?case
  proof (cases "a = m")
    case True
    have "filter (\<lambda>r. f r \<noteq> f m) xs = xs"
    proof (rule filter_True, rule ballI)
      fix r assume "r \<in> set xs"
      then have "f r \<in> f ` set xs" by (rule imageI)
      with na True show "f r \<noteq> f m" by auto
    qed
    with True show ?thesis by simp
  next
    case False
    with Cons.prems(2) have mx: "m \<in> set xs" by simp
    then have "f m \<in> f ` set xs" by (rule imageI)
    with na have "f a \<noteq> f m" by auto
    with False Cons.IH [OF dxs mx] show ?thesis by simp
  qed
qed

lemma limit_single_SomeD: "limit_single xs = Some m \<Longrightarrow> \<exists>t. xs = m # t"
  by (cases xs) (simp_all add: limit_single_def)

lemma undoLast_empty: "room_log (roomId svc) d = [] \<Longrightarrow> undoLast svc e d = (None, d)"
  by (simp add: undoLast_def room_log_def limit_single_Nil)

lemma undoLast_ok:
  assumes "no_error e"
    and "limit_single (order_desc o_sequence (room_log (roomId svc) d)) = Some lastOp"
  shows "fst (undoLast svc e d) = Some (o_id lastOp)"
    and "operations (snd (undoLast svc e d)) = filter (\<lambda>r. o_id r \<noteq> o_id lastOp) (operations d)"
    and "redo_stack (snd (undoLast svc e d))
           = redo_stack_insert e (roomId svc) (o_id lastOp) lastOp (redo_stack d)"
    and "sequence_next (snd (undoLast svc e d)) = sequence_next d"
  using assms by (simp_all add: undoLast_def room_log_def no_error_def)

lemma set_cleanup: "set (cleanup_old_redo_items room rs) \<subseteq> set rs"
  by (simp add: cleanup_old_redo_items_def Let_def)

lemma redo_stack_insert_top:
  assumes clock: "\<forall>r\<in>set rs. r_room_id r = room \<longrightarrow> r_deleted_at r < now e"
    and fresh: "gen_random_uuid e \<notin> r_id ` set rs"
    and n: "n = \<lparr>r_id = gen_random_uuid e, r_room_id = room, r_operation_data = opdata,
                 r_deleted_at = now e, r_original_id = original\<rparr>"
  shows "n \<in> set (redo_stack_insert e room original opdata rs)"
    and "limit_single (order_desc r_deleted_at
           (filter (\<lambda>r. r_room_id r = room) (redo_stack_insert e room original opdata rs))) = Some n"
proof -
  let ?R = "filter (\<lambda>r. r_room_id r = room) (rs @ [n])"
  let ?S = "order_desc r_deleted_at ?R"
  have R: "?R = filter (\<lambda>r. r_room_id r = room) rs @ [n]" by (simp add: n)
  have nR: "n \<in> set ?R" by (simp add: n)
  have strict: "\<forall>x\<in>set ?R. x \<noteq> n \<longrightarrow> r_deleted_at x < r_deleted_at n"
    using clock by (auto simp: n)
  have "limit_single ?S = Some n" using nR strict by (rule limit_single_strict_max)
  then have "\<exists>t. ?S = n # t" by (rule limit_single_SomeD)
  then obtain S' where S: "?S = n # S'" ..
  have rn: "r_room_id n = room" by (simp add: n)
  have "mset ?S = mset ?R" by (rule order_desc_mset)
  then have "mset (n # S') = mset ?R" by (simp only: S)
  then have "add_mset n (mset S') = add_mset n (mset (filter (\<lambda>r. r_room_id r = room) rs))"
    by (simp add: rn)
  then have "mset S' = mset (filter (\<lambda>r. r_room_id r = room) rs)"
    by (simp only: add_mset_add_mset_same_iff)
  then have "set S' = set (filter (\<lambda>r. r_room_id r = room) rs)" by (rule mset_eq_setD)
  then have S'rs: "set S' \<subseteq> set rs" by auto
  have "set (drop 50 ?S) \<subseteq> set S'"
    by (simp only: S) (auto simp: drop_Cons' dest: in_set_dropD)
  with S'rs have "set (drop 50 ?S) \<subseteq> set rs" by blast
  then have "r_id ` set (drop 50 ?S) \<subseteq> r_id ` set rs" by blast
  with fresh have notold: "r_id n \<notin> set (map r_id (drop 50 ?S))" by (auto simp: n)
  have ins: "redo_stack_insert e room original opdata rs = cleanup_old_redo_items room (rs @ [n])"
    by (simp add: redo_stack_insert_def n)
  show mem: "n \<in> set (redo_stack_insert e room original opdata rs)"
    using notold by (simp add: ins cleanup_old_redo_items_def Let_def)
  let ?C = "filter (\<lambda>r. r_room_id r = room) (redo_stack_insert e room original opdata rs)"
  have nC: "n \<in> set ?C" using mem by (simp add: n)
  have "\<forall>x\<in>set ?C. x \<noteq> n \<longrightarrow> r_deleted_at x < r_deleted_at n"
  proof (intro ballI impI)
    fix x assume x: "x \<in> set ?C" and xn: "x \<noteq> n"
    from x have "x \<in> set (rs @ [n])" using set_cleanup [of room "rs @ [n]"] by (auto simp: ins)
    with xn have "x \<in> set rs" by simp
    moreover from x have "r_room_id x = room" by simp
    ultimately have "r_deleted_at x < now e" using clock by blast
    then show "r_deleted_at x < r_deleted_at n" by (simp add: n)
  qed
  with nC show "limit_single (order_desc r_deleted_at ?C) = Some n"
    by (rule limit_single_strict_max)
qed


lemma redoLast_empty: "room_redo (roomId svc) d = [] \<Longrightarrow> redoLast svc e d = (None, d)"
  by (simp add: redoLast_def room_redo_def limit_single_Nil)

lemma op_sequence_rowToOperation: "op_sequence (rowToOperation row) = o_sequence row"
  by (simp add: rowToOperation_def)


lemma op_id_rowToOperation: "op_id (rowToOperation row) = o_id row"
  by (simp add: rowToOperation_def)

lemma undoLast_step:
  assumes ne: "room_log (roomId svc) d \<noteq> []"
    and ok: "no_error e"
    and clock: "\<forall>r\<in>set (room_redo (roomId svc) d). r_deleted_at r < now e"
    and fresh: "gen_random_uuid e \<notin> r_id ` set (redo_stack d)"
  shows "\<exists>lastOp top. lastOp \<in> set (room_log (roomId svc) d)
           \<and> (\<forall>r\<in>set (room_log (roomId svc) d). o_sequence r \<le> o_sequence lastOp)
           \<and> fst (undoLast svc e d) = Some (o_id lastOp)
           \<and> operations (snd (undoLast svc e d))
                = filter (\<lambda>r. o_id r \<noteq> o_id lastOp) (operations d)
           \<and> sequence_next (snd (undoLast svc e d)) = sequence_next d
           \<and> limit_single (order_desc r_deleted_at
                 (room_redo (roomId svc) (snd (undoLast svc e d)))) = Some top
           \<and> top \<in> set (redo_stack (snd (undoLast svc e d)))
           \<and> r_operation_data top = lastOp \<and> r_original_id top = o_id lastOp
           \<and> r_deleted_at top = now e \<and> r_room_id top = roomId svc"
proof -
  from limit_single_max [OF ne, of o_sequence] obtain lastOp
    where sel: "limit_single (order_desc o_sequence (room_log (roomId svc) d)) = Some lastOp"
      and mem: "lastOp \<in> set (room_log (roomId svc) d)"
      and mx: "\<forall>r\<in>set (room_log (roomId svc) d). o_sequence r \<le> o_sequence lastOp"
    by blast
  define top where "top = \<lparr>r_id = gen_random_uuid e, r_room_id = roomId svc,
      r_operation_data = lastOp, r_deleted_at = now e, r_original_id = o_id lastOp\<rparr>"
  have clock': "\<forall>r\<in>set (redo_stack d). r_room_id r = roomId svc \<longrightarrow> r_deleted_at r < now e"
    using clock by (simp add: room_redo_def)
  note u = undoLast_ok [OF ok sel]
  note t = redo_stack_insert_top [OF clock' fresh top_def]
  have "limit_single (order_desc r_deleted_at
          (room_redo (roomId svc) (snd (undoLast svc e d)))) = Some top"
    using t(2) by (simp only: room_redo_def u(3))
  moreover have "top \<in> set (redo_stack (snd (undoLast svc e d)))"
    using t(1) by (simp only: u(3))
  moreover have "r_operation_data top = lastOp \<and> r_original_id top = o_id lastOp
                 \<and> r_deleted_at top = now e \<and> r_room_id top = roomId svc"
    by (simp add: top_def)
  ultimately show ?thesis using mem mx u(1) u(2) u(4) by blast
qed

section \<open>The log invariant\<close>

text \<open>Every method of \<open>SyncService\<close> keeps the sequences of the log pairwise distinct and
  below the counter; the empty database satisfies the invariant.\<close>

lemma log_wf_redo_update [simp]: "log_wf (d\<lparr>redo_stack := X\<rparr>) = log_wf d"
  by (simp add: log_wf_def)

lemma log_wf_filter:
  "log_wf d \<Longrightarrow> log_wf (d\<lparr>operations := filter P (operations d)\<rparr>)"
  by (simp add: log_wf_def distinct_map_filter list_all_iff)

lemma log_wf_insert:
  assumes "log_wf d"
  shows "log_wf (snd (operations_insert e room uid uname ucolor ty dat d))"
proof -
  from assms have lt: "\<forall>r\<in>set (operations d). o_sequence r < sequence_next d"
    by (simp add: log_wf_def list_all_iff)
  then have "sequence_next d \<notin> o_sequence ` set (operations d)" by auto
  with assms lt show ?thesis
    by (auto simp: log_wf_def operations_insert_def Let_def list_all_iff less_Suc_eq)
qed

lemma log_wf_clearRedoStack: "log_wf (clearRedoStack svc e d) = log_wf d"
  by (simp add: clearRedoStack_def)

lemma log_wf_commitStroke: "log_wf d \<Longrightarrow> log_wf (snd (commitStroke svc e stroke d))"
  by (simp add: commitStroke_def Let_def case_prod_beta log_wf_insert log_wf_clearRedoStack)

lemma log_wf_commitClear: "log_wf d \<Longrightarrow> log_wf (commitClear svc e d)"
  by (simp add: commitClear_def log_wf_filter)

lemma log_wf_undoLast: "log_wf d \<Longrightarrow> log_wf (snd (undoLast svc e d))"
  by (auto simp: undoLast_def Let_def log_wf_filter split: option.splits)

lemma log_wf_redoLast: "log_wf d \<Longrightarrow> log_wf (snd (redoLast svc e d))"
  by (simp add: redoLast_def Let_def case_prod_beta log_wf_insert split: option.splits)

lemma log_wf_initial: "log_wf \<lparr>operations = [], redo_stack = [], sequence_next = 1\<rparr>"
  by (simp add: log_wf_def)

lemma log_wf_sequences:
  "log_wf d \<Longrightarrow> distinct (map o_sequence (operations d))
     \<and> (\<forall>r\<in>set (operations d). o_sequence r < sequence_next d) \<and> 0 < sequence_next d"
  by (simp add: log_wf_def list_all_iff)

text \<open>So the operations that clients receive from a log, the rows of the table turned
  into operations by \<open>rowToOperation\<close>, carry pairwise distinct sequences.\<close>

lemma committed_operations_distinct_sequences:
  assumes "log_wf d" and "distinct rows" and "set rows \<subseteq> set (operations d)"
  shows "distinct (map op_sequence (map rowToOperation rows))"
proof -
  from assms(1) have "distinct (map o_sequence (operations d))" by (simp add: log_wf_def)
  then have "inj_on o_sequence (set (operations d))" by (simp add: distinct_map)
  with assms(3) have "inj_on o_sequence (set rows)" by (rule inj_on_subset [rotated])
  with assms(2) have "distinct (map o_sequence rows)" by (simp add: distinct_map)
  moreover have "map op_sequence (map rowToOperation rows) = map o_sequence rows"
    by (induction rows) (simp_all add: op_sequence_rowToOperation)
  ultimately show ?thesis by (simp only:)
qed

section \<open>The scenario with sequences 1, 2, 3\<close>

lemma undoLast_db3: "undoLast svc_R (ok_env 10 ''u1'') db3 = (Some ''op3'', db3_undone)"
  by (simp add: undoLast_def db3_def db_of_def svc_R_def ok_env_def log_row_def limit_single_def
      order_desc_def redo_stack_insert_def cleanup_old_redo_items_def db3_undone_def)


lemma db3_hyps:
  "room_log (roomId svc_R) db3 \<noteq> []"
  "\<forall>r\<in>set (operations db3). o_sequence r < sequence_next db3"
  "no_error (ok_env t u)"
  "\<forall>r\<in>set (room_redo (roomId svc_R) db3). r_deleted_at r < now (ok_env 10 ''u1'')"
  "gen_random_uuid (ok_env 10 ''u1'') \<notin> r_id ` set (redo_stack db3)"
  "distinct (map o_id (operations db3))"
  by (simp_all add: room_log_def room_redo_def db3_def db_of_def svc_R_def ok_env_def
      log_row_def no_error_def)

section \<open>Undo\<close>

text \<open>
  Claim C3. If the room's log is empty, \<open>undoLast\<close> returns \<open>null\<close> and leaves the whole
  database as it was. If it is not empty, the requests succeed, the ids of the log are
  unique (primary key), the clock is later than every earlier removal in the room and the
  new row's id is fresh, then \<open>undoLast\<close> picks a row of the room with the highest sequence,
  returns its id, deletes exactly that row from the log, and leaves the row as the most
  recent entry of the room's redo stack, recorded under its original id at the time of the
  call.
\<close>

theorem undoLast_removes_highest:
  "(room_log (roomId svc) d = [] \<longrightarrow> undoLast svc e d = (None, d))
   \<and> (room_log (roomId svc) d \<noteq> [] \<and> no_error e
        \<and> distinct (map o_id (operations d))
        \<and> (\<forall>r\<in>set (room_redo (roomId svc) d). r_deleted_at r < now e)
        \<and> gen_random_uuid e \<notin> r_id ` set (redo_stack d)
      \<longrightarrow> (\<exists>lastOp top.
             lastOp \<in> set (room_log (roomId svc) d)
           \<and> (\<forall>r\<in>set (room_log (roomId svc) d). o_sequence r \<le> o_sequence lastOp)
           \<and> fst (undoLast svc e d) = Some (o_id lastOp)
           \<and> operations (snd (undoLast svc e d)) = remove1 lastOp (operations d)
           \<and> lastOp \<notin> set (operations (snd (undoLast svc e d)))
           \<and> limit_single (order_desc r_deleted_at
                 (room_redo (roomId svc) (snd (undoLast svc e d)))) = Some top
           \<and> r_operation_data top = lastOp \<and> r_original_id top = o_id lastOp
           \<and> r_deleted_at top = now e))"
proof (intro conjI impI)
  assume "room_log (roomId svc) d = []"
  then show "undoLast svc e d = (None, d)" by (rule undoLast_empty)
next
  assume h: "room_log (roomId svc) d \<noteq> [] \<and> no_error e
        \<and> distinct (map o_id (operations d))
        \<and> (\<forall>r\<in>set (room_redo (roomId svc) d). r_deleted_at r < now e)
        \<and> gen_random_uuid e \<notin> r_id ` set (redo_stack d)"
  then have ne: "room_log (roomId svc) d \<noteq> []" and ok: "no_error e"
    and dist: "distinct (map o_id (operations d))"
    and clock: "\<forall>r\<in>set (room_redo (roomId svc) d). r_deleted_at r < now e"
    and fresh: "gen_random_uuid e \<notin> r_id ` set (redo_stack d)" by simp_all
  from undoLast_step [OF ne ok clock fresh] obtain lastOp top
    where mem: "lastOp \<in> set (room_log (roomId svc) d)"
      and mx: "\<forall>r\<in>set (room_log (roomId svc) d). o_sequence r \<le> o_sequence lastOp"
      and res: "fst (undoLast svc e d) = Some (o_id lastOp)"
      and ops: "operations (snd (undoLast svc e d))
                  = filter (\<lambda>r. o_id r \<noteq> o_id lastOp) (operations d)"
      and top: "limit_single (order_desc r_deleted_at
                 (room_redo (roomId svc) (snd (undoLast svc e d)))) = Some top"
      and dat: "r_operation_data top = lastOp" "r_original_id top = o_id lastOp"
               "r_deleted_at top = now e"
    by blast
  from mem have mem': "lastOp \<in> set (operations d)" by (simp add: room_log_def)
  have rem: "operations (snd (undoLast svc e d)) = remove1 lastOp (operations d)"
    using ops filter_remove1 [OF dist mem'] by simp
  have "lastOp \<notin> set (operations (snd (undoLast svc e d)))" by (simp add: ops)
  with mem mx res rem top dat
  show "\<exists>lastOp top.
             lastOp \<in> set (room_log (roomId svc) d)
           \<and> (\<forall>r\<in>set (room_log (roomId svc) d). o_sequence r \<le> o_sequence lastOp)
           \<and> fst (undoLast svc e d) = Some (o_id lastOp)
           \<and> operations (snd (undoLast svc e d)) = remove1 lastOp (operations d)
           \<and> lastOp \<notin> set (operations (snd (undoLast svc e d)))
           \<and> limit_single (order_desc r_deleted_at
                 (room_redo (roomId svc) (snd (undoLast svc e d)))) = Some top
           \<and> r_operation_data top = lastOp \<and> r_original_id top = o_id lastOp
           \<and> r_deleted_at top = now e"
    by (intro exI [of _ lastOp] exI [of _ top] conjI)
qed

theorem undoLast_removes_highest_witness:
  "room_log (roomId svc_R) (db_of [] 1) = []
   \<and> undoLast svc_R (ok_env 10 ''u1'') (db_of [] 1) = (None, db_of [] 1)
   \<and> room_log (roomId svc_R) db3 \<noteq> [] \<and> no_error (ok_env 10 ''u1'')
   \<and> distinct (map o_id (operations db3))
   \<and> list_all (\<lambda>r. r_deleted_at r < now (ok_env 10 ''u1'')) (room_redo (roomId svc_R) db3)
   \<and> gen_random_uuid (ok_env 10 ''u1'') \<notin> r_id ` set (redo_stack db3)
   \<and> (\<exists>lastOp top.
          fst (undoLast svc_R (ok_env 10 ''u1'') db3) = Some (o_id lastOp)
        \<and> operations (snd (undoLast svc_R (ok_env 10 ''u1'') db3)) = remove1 lastOp (operations db3)
        \<and> limit_single (order_desc r_deleted_at
              (room_redo (roomId svc_R) (snd (undoLast svc_R (ok_env 10 ''u1'') db3)))) = Some top
        \<and> r_operation_data top = lastOp)
   \<and> undoLast svc_R (ok_env 10 ''u1'') db3 = (Some ''op3'', db3_undone)"
proof -
  note t = undoLast_removes_highest [of svc_R "db_of [] 1" "ok_env 10 ''u1''"]
  have h0: "room_log (roomId svc_R) (db_of [] 1) = []" by (simp add: room_log_def db_of_def)
  from t h0 have c0: "undoLast svc_R (ok_env 10 ''u1'') (db_of [] 1) = (None, db_of [] 1)"
    by (rule mp [OF conjunct1])
  have h: "room_log (roomId svc_R) db3 \<noteq> [] \<and> no_error (ok_env 10 ''u1'')
        \<and> distinct (map o_id (operations db3))
        \<and> (\<forall>r\<in>set (room_redo (roomId svc_R) db3). r_deleted_at r < now (ok_env 10 ''u1''))
        \<and> gen_random_uuid (ok_env 10 ''u1'') \<notin> r_id ` set (redo_stack db3)"
    using db3_hyps(1) db3_hyps(3) [of 10 "''u1''"] db3_hyps(6) db3_hyps(4) db3_hyps(5)
    by (intro conjI)
  from mp [OF conjunct2 [OF undoLast_removes_highest [of svc_R db3 "ok_env 10 ''u1''"]] h]
  obtain lastOp top where
    "fst (undoLast svc_R (ok_env 10 ''u1'') db3) = Some (o_id lastOp)"
    "operations (snd (undoLast svc_R (ok_env 10 ''u1'') db3)) = remove1 lastOp (operations db3)"
    "limit_single (order_desc r_deleted_at
        (room_redo (roomId svc_R) (snd (undoLast svc_R (ok_env 10 ''u1'') db3)))) = Some top"
    "r_operation_data top = lastOp"
    by blast
  then have ex: "\<exists>lastOp top.
          fst (undoLast svc_R (ok_env 10 ''u1'') db3) = Some (o_id lastOp)
        \<and> operations (snd (undoLast svc_R (ok_env 10 ''u1'') db3)) = remove1 lastOp (operations db3)
        \<and> limit_single (order_desc r_deleted_at
              (room_redo (roomId svc_R) (snd (undoLast svc_R (ok_env 10 ''u1'') db3)))) = Some top
        \<and> r_operation_data top = lastOp"
    by (intro exI [of _ lastOp] exI [of _ top] conjI)
  have l4: "list_all (\<lambda>r. r_deleted_at r < now (ok_env 10 ''u1'')) (room_redo (roomId svc_R) db3)"
    using db3_hyps(4) by (simp only: list_all_iff)
  from h0 c0 db3_hyps(1) db3_hyps(3) [of 10 "''u1''"] db3_hyps(6) l4 db3_hyps(5)
    ex undoLast_db3
  show ?thesis by (intro conjI)
qed

section \<open>Undo followed by redo\<close>



section \<open>The bound of the redo stack\<close>















section \<open>Committing a stroke, clearing the canvas\<close>

lemma commitClear_redo_stack: "redo_stack (commitClear svc e d) = redo_stack d"
  by (simp add: commitClear_def)

lemma commitStroke_clears_redo_stack:
  assumes "\<not> delete_error e" and "roomId svc' = roomId svc"
  shows "room_redo (roomId svc) (snd (commitStroke svc e stroke d)) = []"
    and "fst (redoLast svc' e' (snd (commitStroke svc e stroke d))) = None"
proof -
  have "redo_stack (snd (commitStroke svc e stroke d))
        = filter (\<lambda>r. r_room_id r \<noteq> roomId svc) (redo_stack d)"
    using assms(1)
    by (simp add: commitStroke_def clearRedoStack_def operations_insert_def Let_def)
  then show empty: "room_redo (roomId svc) (snd (commitStroke svc e stroke d)) = []"
    by (simp add: room_redo_def filter_empty_conv)
  then have "room_redo (roomId svc') (snd (commitStroke svc e stroke d)) = []"
    by (simp only: assms(2))
  then have "redoLast svc' e' (snd (commitStroke svc e stroke d))
             = (None, snd (commitStroke svc e stroke d))" by (rule redoLast_empty)
  then show "fst (redoLast svc' e' (snd (commitStroke svc e stroke d))) = None" by simp
qed

text \<open>
  Claim C1, at the input where the code departs from it. \<open>commitStroke\<close> empties the room's
  redo stack (lemma \<open>commitStroke_clears_redo_stack\<close>), but \<open>commitClear\<close> deletes only the
  rows of the log and never touches the redo stack (lemma \<open>commitClear_redo_stack\<close>). In a
  room with one operation, after \<open>undoLast\<close> and then \<open>commitClear\<close>, the redo stack still
  holds the removed operation and \<open>redoLast\<close> commits and returns it again.
\<close>

theorem commitClear_then_redoLast:
  "fst (redoLast svc_R (ok_env 12 ''u3'')
         (commitClear svc_R (ok_env 11 ''u2'')
           (snd (undoLast svc_R (ok_env 10 ''u1'') (db_of [log_row ''op1'' 1] 2)))))
     = Some (Clear \<lparr>c_id = ''u3'', c_userId = ''bob'', c_timestamp = 12, c_sequence = 2\<rparr>)
   \<and> room_redo ''R'' (commitClear svc_R (ok_env 11 ''u2'')
           (snd (undoLast svc_R (ok_env 10 ''u1'') (db_of [log_row ''op1'' 1] 2))))
     = [\<lparr>r_id = ''u1'', r_room_id = ''R'', r_operation_data = log_row ''op1'' 1,
         r_deleted_at = 10, r_original_id = ''op1''\<rparr>]
   \<and> hasRedoAvailable svc_R (commitClear svc_R (ok_env 11 ''u2'')
           (snd (undoLast svc_R (ok_env 10 ''u1'') (db_of [log_row ''op1'' 1] 2))))"
  by (simp add: redoLast_def commitClear_def undoLast_def db_of_def svc_R_def ok_env_def
      hasRedoAvailable_def
      log_row_def limit_single_def order_desc_def redo_stack_insert_def
      cleanup_old_redo_items_def operations_insert_def rowToOperation_def room_redo_def
      Let_def)

text \<open>
  Claim C4. \<open>commitStroke\<close> returns \<^verbatim>\<open>number | null\<close>. When the insert into the log reports
  an error the result is \<open>null\<close>, the failure result of this signature, and the log is as
  it was; when the insert succeeds the result is the sequence that the log assigned to the
  new row, which carries the stroke's data (the counter starts at 1, so the sequence is
  never the falsy 0).
\<close>

theorem commitStroke_result:
  "(insert_error e \<longrightarrow>
       fst (commitStroke svc e stroke d) = None
     \<and> operations (snd (commitStroke svc e stroke d)) = operations d)
   \<and> (\<not> insert_error e \<and> 0 < sequence_next d \<longrightarrow>
       fst (commitStroke svc e stroke d) = Some (sequence_next d)
     \<and> (\<exists>row. operations (snd (commitStroke svc e stroke d)) = operations d @ [row]
            \<and> o_sequence row = sequence_next d \<and> o_room_id row = roomId svc
            \<and> o_user_id row = userId svc \<and> o_type row = type_stroke
            \<and> d_id (o_data row) = Some (s_id stroke)
            \<and> d_color (o_data row) = Some (s_color stroke)
            \<and> d_width (o_data row) = Some (s_width stroke)
            \<and> d_tool (o_data row) = Some (s_tool stroke)
            \<and> d_points (o_data row) = Some (s_points stroke)))"
  by (simp add: commitStroke_def clearRedoStack_def operations_insert_def Let_def)

theorem commitStroke_result_witness:
  "insert_error ((ok_env 11 ''u2'')\<lparr>insert_error := True\<rparr>)
   \<and> fst (commitStroke svc_R ((ok_env 11 ''u2'')\<lparr>insert_error := True\<rparr>) demo_stroke db3) = None
   \<and> \<not> insert_error (ok_env 11 ''u2'') \<and> 0 < sequence_next db3
   \<and> fst (commitStroke svc_R (ok_env 11 ''u2'') demo_stroke db3) = Some 4"
proof -
  have a: "insert_error ((ok_env 11 ''u2'')\<lparr>insert_error := True\<rparr>)" by simp
  have b: "\<not> insert_error (ok_env 11 ''u2'') \<and> 0 < sequence_next db3"
    by (simp add: ok_env_def db3_def db_of_def)
  have n: "sequence_next db3 = 4" by (simp add: db3_def db_of_def)
  from commitStroke_result [of "(ok_env 11 ''u2'')\<lparr>insert_error := True\<rparr>" svc_R demo_stroke db3] a
  have c: "fst (commitStroke svc_R ((ok_env 11 ''u2'')\<lparr>insert_error := True\<rparr>) demo_stroke db3) = None"
    by blast
  from commitStroke_result [of "ok_env 11 ''u2''" svc_R demo_stroke db3] b
  have "fst (commitStroke svc_R (ok_env 11 ''u2'') demo_stroke db3) = Some (sequence_next db3)"
    by blast
  then have d: "fst (commitStroke svc_R (ok_env 11 ''u2'') demo_stroke db3) = Some 4"
    by (simp only: n)
  from a b c d show ?thesis by (intro conjI) simp_all
qed

end
